theory Spec2Isabelle
  imports Complex_Main "HOL-Library.Sublist"
begin

section \<open>The profiler of tools/profile.py\<close>

text \<open>
  A shallow embedding of the sampling, aggregation, classification and leak-report
  parsing code of \<^verbatim>\<open>tools/profile.py\<close>.

  Python numbers are embedded in \<^typ>\<open>real\<close>: the module imports true division
  (\<^verbatim>\<open>from __future__ import division\<close>), so \<^verbatim>\<open>sum(xs)/len(xs)\<close> is a
  quotient, and Python compares an int with a float by value. Rounding of binary
  floating point is not modelled: the arithmetic here is exact.
\<close>

subsection \<open>Thresholds and the classifier (\<^verbatim>\<open>RANGES\<close>, \<^verbatim>\<open>summary\<close>, \<^verbatim>\<open>rank\<close>)\<close>

definition KB :: real where
  "KB = 1024 * 1024"

text \<open>
  An entry of \<^verbatim>\<open>RANGES\<close> is the tuple of colouring functions (key
  \<^verbatim>\<open>"colors"\<close>, used for display only) or a tuple of thresholds.
\<close>

datatype range_entry = Colors | Thresholds "real list"

definition RANGES :: "(string \<times> range_entry) list" where
  "RANGES =
    [(''colors'', Colors),
     (''utilization'', Thresholds [8, 20, 50]),
     (''cpu_time'', Thresholds [0.4, 1, 10]),
     (''memory'', Thresholds [8 * KB, 12 * KB, 24 * KB]),
     (''fds'', Thresholds [6, 12, 50]),
     (''duration'', Thresholds [0.8, 1, 3])]"

text \<open>
  \<^verbatim>\<open>for i, r in enumerate(ranges): if value < r: return i\<close>; the loop falling
  through is \<open>None\<close>, and \<^verbatim>\<open>rank\<close> then returns \<^verbatim>\<open>len(ranges)\<close>.
\<close>

fun rank_loop :: "real \<Rightarrow> (nat \<times> real) list \<Rightarrow> nat option" where
  "rank_loop v [] = None"
| "rank_loop v ((i, r) # rest) = (if v < r then Some i else rank_loop v rest)"

definition rank :: "real \<Rightarrow> real list \<Rightarrow> nat" where
  "rank v ranges =
    (case rank_loop v (enumerate 0 ranges) of Some i \<Rightarrow> i | None \<Rightarrow> length ranges)"

text \<open>
  The body of \<^verbatim>\<open>for key in RANGES\<close> in \<^verbatim>\<open>summary\<close>: the key
  \<^verbatim>\<open>"colors"\<close> and the keys missing from the result are skipped, every other key
  is ranked against its own thresholds. A result is the dict of its fields.
\<close>

definition summary_step ::
  "(string \<rightharpoonup> real) \<Rightarrow> string \<times> range_entry \<Rightarrow> (string \<rightharpoonup> nat) \<Rightarrow> (string \<rightharpoonup> nat)" where
  "summary_step result ke acc =
    (case ke of
       (key, Colors) \<Rightarrow> acc
     | (key, Thresholds ts) \<Rightarrow>
         (case result key of None \<Rightarrow> acc | Some v \<Rightarrow> acc(key \<mapsto> rank v ts)))"

definition summary_result :: "(string \<rightharpoonup> real) \<Rightarrow> (string \<rightharpoonup> nat)" where
  "summary_result result = fold (summary_step result) RANGES Map.empty"

text \<open>\<^verbatim>\<open>summary(results)\<close> without the display: one summary per named result.\<close>

definition summary :: "(string \<rightharpoonup> (string \<rightharpoonup> real)) \<Rightarrow> (string \<rightharpoonup> (string \<rightharpoonup> nat))" where
  "summary results = (\<lambda>name. map_option summary_result (results name))"

subsection \<open>The metrics sampler (\<^verbatim>\<open>get_stats\<close>)\<close>

datatype error = AccessDenied | NoSuchProcess | UnboundLocalError | IndexError | UnicodeDecodeError

text \<open>
  What the process-metrics library returns for one process at one moment: the tuples of
  \<^verbatim>\<open>cpu_times()\<close>, \<^verbatim>\<open>memory_info_ex()\<close> and \<^verbatim>\<open>io_counters()\<close> (the fields
  the profiler reads, and their neighbours), the CPU percentage and the descriptor count.
\<close>

record pcputimes =
  user :: real
  system :: real

record pextmem =
  rss :: int
  vms :: int

record pio =
  read_count :: int
  write_count :: int

record process_info =
  cpu_percent :: real
  io_counters :: pio
  num_fds :: int
  cpu_times :: pcputimes
  memory_info_ex :: pextmem

text \<open>The dict that \<^verbatim>\<open>get_stats\<close> returns; its keys carry the prefix \<open>stat_\<close>.\<close>

record stats_dict =
  stat_utilization :: real
  stat_counters :: "pio option"
  stat_fds :: int
  stat_cpu_times :: pcputimes
  stat_memory :: pextmem

definition get_stats :: "string \<Rightarrow> process_info \<Rightarrow> stats_dict" where
  "get_stats sys_platform p =
    \<lparr>stat_utilization = cpu_percent p,
     stat_counters = (if sys_platform \<noteq> ''darwin'' then Some (io_counters p) else None),
     stat_fds = num_fds p,
     stat_cpu_times = cpu_times p,
     stat_memory = memory_info_ex p\<rparr>"

subsection \<open>The run executor (\<^verbatim>\<open>run_query\<close>)\<close>

text \<open>
  The subprocess and the metrics library are outside the program. A run sees them through
  its environment: the two readings of the clock, and for the \<open>n\<close>-th pass of the
  polling loop what \<^verbatim>\<open>p.is_running()\<close> answers and, when the body runs, whether
  the library calls under \<^verbatim>\<open>get_stats\<close> raise or what they return.
\<close>

record poll =
  is_running :: bool
  sampled :: "error + process_info"

record run_env =
  platform :: string
  start_time :: real
  end_time :: real
  polls :: "nat \<Rightarrow> poll"

text \<open>
  The variables of the loop. \<open>stats\<close> is \<open>None\<close> while the Python variable is
  unbound; \<open>killed\<close> records \<^verbatim>\<open>proc.kill()\<close>.
\<close>

record loop_state =
  delay :: real
  percents :: "real list"
  stats :: "stats_dict option"
  killed :: bool

definition step :: real where
  "step = 0.5"

definition initial_state :: loop_state where
  "initial_state = \<lparr>delay = 0, percents = [], stats = None, killed = False\<rparr>"

text \<open>
  \<^verbatim>\<open>while p.is_running(): ...\<close>, from its \<open>n\<close>-th pass on. Only
  \<^verbatim>\<open>AccessDenied\<close> is caught (and leaves the loop); any other exception leaves
  \<^verbatim>\<open>run_query\<close>. A loop that never ends has the value \<open>None\<close>.
\<close>

partial_function (option) poll_loop ::
  "run_env \<Rightarrow> int \<Rightarrow> nat \<Rightarrow> loop_state \<Rightarrow> (error + loop_state) option" where
  "poll_loop env timeout n st =
    (if \<not> is_running (polls env n) then Some (Inr st)
     else
       (case sampled (polls env n) of
          Inl e \<Rightarrow> (if e = AccessDenied then Some (Inr st) else Some (Inl e))
        | Inr p \<Rightarrow>
            (if timeout > 0 \<and> delay st + step \<ge> real_of_int timeout + 2
             then Some (Inr \<lparr>delay = delay st + step,
                              percents = percents st @ [stat_utilization (get_stats (platform env) p)],
                              stats = Some (get_stats (platform env) p),
                              killed = True\<rparr>)
             else poll_loop env timeout (Suc n)
                    \<lparr>delay = delay st + step,
                     percents = percents st @ [stat_utilization (get_stats (platform env) p)],
                     stats = Some (get_stats (platform env) p),
                     killed = killed st\<rparr>)))"

declare poll_loop.simps [code]

text \<open>The dict that \<^verbatim>\<open>run_query\<close> returns.\<close>

record run_result =
  utilization :: real
  duration :: real
  memory :: int
  user_time :: real
  system_time :: real
  cpu_time :: real
  fds :: int

text \<open>Lines 185 to 189: the mean of the samples that are not zero.\<close>

definition avg_utilization :: "real list \<Rightarrow> real" where
  "avg_utilization ps =
    (let utilization = filter (\<lambda>p. p \<noteq> 0) ps
     in if length utilization = 0 then 0
        else sum_list utilization / real (length utilization))"

text \<open>
  The code after the loop. Reading \<^verbatim>\<open>stats\<close> while it is unbound raises
  \<^verbatim>\<open>UnboundLocalError\<close>.
\<close>

definition build_result :: "run_env \<Rightarrow> loop_state \<Rightarrow> error + run_result" where
  "build_result env st =
    (case stats st of
       None \<Rightarrow> Inl UnboundLocalError
     | Some s \<Rightarrow>
         Inr \<lparr>utilization = avg_utilization (percents st),
              duration = end_time env - start_time env - 2,
              memory = rss (stat_memory s),
              user_time = user (stat_cpu_times s),
              system_time = system (stat_cpu_times s),
              cpu_time = user (stat_cpu_times s) + system (stat_cpu_times s),
              fds = stat_fds s\<rparr>)"

definition run_query :: "run_env \<Rightarrow> int \<Rightarrow> (error + run_result) option" where
  "run_query env timeout =
    (case poll_loop env timeout 0 initial_state of
       None \<Rightarrow> None
     | Some (Inl e) \<Rightarrow> Some (Inl e)
     | Some (Inr st) \<Rightarrow> Some (build_result env st))"

subsection \<open>The round aggregator (\<^verbatim>\<open>profile\<close>)\<close>

text \<open>\<^verbatim>\<open>result.iteritems()\<close>: the fields of a result, as numbers.\<close>

definition iteritems :: "run_result \<Rightarrow> (string \<times> real) list" where
  "iteritems r =
    [(''utilization'', utilization r),
     (''duration'', duration r),
     (''memory'', real_of_int (memory r)),
     (''user_time'', user_time r),
     (''system_time'', system_time r),
     (''cpu_time'', cpu_time r),
     (''fds'', real_of_int (fds r))]"

text \<open>\<^verbatim>\<open>results[k] = results.get(k, []); results[k].append(v)\<close>\<close>

definition store :: "string \<times> real \<Rightarrow> (string \<rightharpoonup> real list) \<Rightarrow> (string \<rightharpoonup> real list)" where
  "store kv results =
    (case kv of (k, v) \<Rightarrow>
       results(k \<mapsto> (case results k of None \<Rightarrow> [] | Some vs \<Rightarrow> vs) @ [v]))"

text \<open>
  \<^verbatim>\<open>for i in range(rounds)\<close>: round \<open>i\<close> runs in the environment \<open>envs i\<close>; an
  exception in a round leaves \<^verbatim>\<open>profile\<close>. The call of \<^verbatim>\<open>summary\<close> with
  \<^verbatim>\<open>display=True\<close> in each round prints and changes nothing.
\<close>

fun profile_rounds ::
  "(nat \<Rightarrow> run_env) \<Rightarrow> int \<Rightarrow> nat list \<Rightarrow> (string \<rightharpoonup> real list)
    \<Rightarrow> (error + (string \<rightharpoonup> real list)) option" where
  "profile_rounds envs timeout [] results = Some (Inr results)"
| "profile_rounds envs timeout (i # rest) results =
    (case run_query (envs i) timeout of
       None \<Rightarrow> None
     | Some (Inl e) \<Rightarrow> Some (Inl e)
     | Some (Inr result) \<Rightarrow>
         profile_rounds envs timeout rest (fold store (iteritems result) results))"

text \<open>\<^verbatim>\<open>average_results[k] = sum(results[k])/len(results[k])\<close> for every stored key.\<close>

definition average_results :: "(string \<rightharpoonup> real list) \<Rightarrow> (string \<rightharpoonup> real)" where
  "average_results results =
    (\<lambda>k. map_option (\<lambda>vs. sum_list vs / real (length vs)) (results k))"

text \<open>The body of the loop over the queries: the averaged report entry of one query.\<close>

definition profile_query ::
  "(nat \<Rightarrow> run_env) \<Rightarrow> int \<Rightarrow> int \<Rightarrow> (error + (string \<rightharpoonup> real)) option" where
  "profile_query envs timeout rounds =
    (case profile_rounds envs timeout [0..<nat rounds] Map.empty of
       None \<Rightarrow> None
     | Some (Inl e) \<Rightarrow> Some (Inl e)
     | Some (Inr results) \<Rightarrow> Some (Inr (average_results results)))"

text \<open>
  \<^verbatim>\<open>profile\<close>: every query, here a name with the environments of its rounds, adds
  its entry to the report.
\<close>

fun profile ::
  "(string \<times> (nat \<Rightarrow> run_env)) list \<Rightarrow> int \<Rightarrow> int \<Rightarrow> (string \<rightharpoonup> (string \<rightharpoonup> real))
    \<Rightarrow> (error + (string \<rightharpoonup> (string \<rightharpoonup> real))) option" where
  "profile [] timeout rounds report = Some (Inr report)"
| "profile ((name, envs) # queries) timeout rounds report =
    (case profile_query envs timeout rounds of
       None \<Rightarrow> None
     | Some (Inl e) \<Rightarrow> Some (Inl e)
     | Some (Inr average) \<Rightarrow> profile queries timeout rounds (report(name \<mapsto> average)))"

subsection \<open>The leak checker (\<^verbatim>\<open>check_leaks_linux\<close>)\<close>

text \<open>
  Strings. The module imports \<^verbatim>\<open>unicode_literals\<close>, so the separators and the
  keys are unicode strings and the byte string read from the subprocess is decoded as
  ASCII by the first \<^verbatim>\<open>split\<close>: a byte above 127 raises
  \<^verbatim>\<open>UnicodeDecodeError\<close>. \<open>str_split\<close> is \<^verbatim>\<open>s.split(sep)\<close> for a separator of
  one character, \<open>str_find\<close> is \<^verbatim>\<open>s.find(key)\<close>, \<open>strip\<close> is \<^verbatim>\<open>s.strip()\<close>.
\<close>

fun str_split :: "char \<Rightarrow> string \<Rightarrow> string list" where
  "str_split sep [] = [[]]"
| "str_split sep (c # cs) =
    (if c = sep then [] # str_split sep cs
     else (case str_split sep cs of
             [] \<Rightarrow> [[c]]
           | piece # pieces \<Rightarrow> (c # piece) # pieces))"

fun find_from :: "int \<Rightarrow> string \<Rightarrow> string \<Rightarrow> int" where
  "find_from i [] key = (if key = [] then i else - 1)"
| "find_from i (c # cs) key =
    (if prefix key (c # cs) then i else find_from (i + 1) cs key)"

definition str_find :: "string \<Rightarrow> string \<Rightarrow> int" where
  "str_find s key = find_from 0 s key"

text \<open>
  The characters that \<^verbatim>\<open>strip()\<close> removes from a unicode string, among the ASCII
  ones: tab, line feed, vertical tab, form feed, carriage return, the four separators
  from 0x1C to 0x1F, and the space.
\<close>

definition whitespace :: "char \<Rightarrow> bool" where
  "whitespace c \<longleftrightarrow>
    c \<in> set [CHR 0x09, CHR 0x0A, CHR 0x0B, CHR 0x0C, CHR 0x0D,
             CHR 0x1C, CHR 0x1D, CHR 0x1E, CHR 0x1F, CHR 0x20]"

definition strip :: "string \<Rightarrow> string" where
  "strip s = rev (dropWhile whitespace (rev (dropWhile whitespace s)))"

text \<open>
  The summary dict: its three keys are always present, with the value \<open>None\<close> until a
  line sets them.
\<close>

type_synonym leak_summary = "string \<rightharpoonup> string option"

definition summary_keys :: "string list" where
  "summary_keys = [''definitely'', ''indirectly'', ''possibly'']"

definition empty_summary :: leak_summary where
  "empty_summary = [''definitely'' \<mapsto> None, ''indirectly'' \<mapsto> None, ''possibly'' \<mapsto> None]"

text \<open>
  \<^verbatim>\<open>for key in summary: if line.find(key) >= 0: summary[key] = line.split(":")[1].strip()\<close>;
  the index \<open>1\<close> raises \<^verbatim>\<open>IndexError\<close> when the line has no colon.
\<close>

fun scan_keys :: "string \<Rightarrow> string list \<Rightarrow> leak_summary \<Rightarrow> error + leak_summary" where
  "scan_keys line [] summ = Inr summ"
| "scan_keys line (key # keys) summ =
    (if str_find line key \<ge> 0 then
       (case str_split CHR '':'' line of
          first # second # others \<Rightarrow> scan_keys line keys (summ(key \<mapsto> Some (strip second)))
        | _ \<Rightarrow> Inl IndexError)
     else scan_keys line keys summ)"

fun scan_lines :: "string list \<Rightarrow> leak_summary \<Rightarrow> error + leak_summary" where
  "scan_lines [] summ = Inr summ"
| "scan_lines (line # lines) summ =
    (case scan_keys line summary_keys summ of
       Inl e \<Rightarrow> Inl e
     | Inr summ' \<Rightarrow> scan_lines lines summ')"

text \<open>
  \<^verbatim>\<open>check_leaks_linux\<close>, from the error stream of the instrumented run to the
  summary.
\<close>

definition check_leaks_linux :: "string \<Rightarrow> error + leak_summary" where
  "check_leaks_linux stderr =
    (if \<exists>c \<in> set stderr. digit7 c then Inl UnicodeDecodeError
     else scan_lines (str_split CHR 0x0A stderr) empty_summary)"

subsection \<open>Sample environments\<close>

text \<open>Concrete subprocesses, for evaluating the definitions.\<close>

definition sample_info :: "real \<Rightarrow> real \<Rightarrow> process_info" where
  "sample_info percent seconds =
    \<lparr>cpu_percent = percent,
     io_counters = \<lparr>read_count = 3, write_count = 1\<rparr>,
     num_fds = 5,
     cpu_times = \<lparr>user = seconds, system = 0.25\<rparr>,
     memory_info_ex = \<lparr>rss = 4096, vms = 8192\<rparr>\<rparr>"

text \<open>A subprocess that never exits: every poll finds it running and samples it.\<close>

definition steady_env :: run_env where
  "steady_env =
    \<lparr>platform = ''linux2'', start_time = 100, end_time = 106,
     polls = (\<lambda>n. \<lparr>is_running = True,
                     sampled = Inr (sample_info (if even n then 0 else 10) 1.5)\<rparr>)\<rparr>"

text \<open>A subprocess that has exited before the first poll.\<close>

definition exited_env :: run_env where
  "exited_env =
    \<lparr>platform = ''linux2'', start_time = 100, end_time = 101,
     polls = (\<lambda>n. \<lparr>is_running = False, sampled = Inl NoSuchProcess\<rparr>)\<rparr>"

text \<open>A subprocess that is running, and whose metrics may not be read.\<close>

definition denied_env :: run_env where
  "denied_env =
    \<lparr>platform = ''darwin'', start_time = 100, end_time = 101,
     polls = (\<lambda>n. \<lparr>is_running = True, sampled = Inl AccessDenied\<rparr>)\<rparr>"

text \<open>
  A subprocess that is sampled five times, with the utilizations 0, 0, 10, 20, 0, and
  then has exited; \<open>seconds\<close> is its user time.
\<close>

definition short_env :: "real \<Rightarrow> run_env" where
  "short_env seconds =
    \<lparr>platform = ''linux2'', start_time = 100, end_time = 105,
     polls = (\<lambda>n. if n < 5
                   then \<lparr>is_running = True,
                         sampled = Inr (sample_info ([0, 0, 10, 20, 0] ! n) seconds)\<rparr>
                   else \<lparr>is_running = False, sampled = Inl NoSuchProcess\<rparr>)\<rparr>"

subsection \<open>Notions used in the statements\<close>

text \<open>
  The utilization that the \<open>i\<close>-th pass of the loop is given by the sampler, when the
  subprocess is running then and the sampler does not raise.
\<close>

definition observed :: "run_env \<Rightarrow> nat \<Rightarrow> real option" where
  "observed env i =
    (if is_running (polls env i)
     then (case sampled (polls env i) of Inl e \<Rightarrow> None | Inr p \<Rightarrow> Some (cpu_percent p))
     else None)"

text \<open>
  What a loop that starts its \<open>n\<close>-th pass in the state \<open>st\<close> and ends in \<open>st'\<close> has
  done in between, for some number \<open>k\<close> of passes: appended the utilizations observed in
  the passes \<open>n\<close> to \<open>n + k - 1\<close>, added \<open>k\<close> steps to the delay, and bound \<open>stats\<close>
  if there was a pass.
\<close>

definition collected :: "run_env \<Rightarrow> nat \<Rightarrow> loop_state \<Rightarrow> loop_state \<Rightarrow> bool" where
  "collected env n st st' \<longleftrightarrow>
    (\<exists>k. map Some (percents st') = map Some (percents st) @ map (observed env) [n..<n + k]
        \<and> delay st' = delay st + real k * step
        \<and> (k = 0 \<longrightarrow> stats st' = stats st) \<and> (0 < k \<longrightarrow> stats st' \<noteq> None))"

text \<open>
  A final state of a loop that the timeout bounds: the delay is one step per collected
  sample and at most \<open>timeout + 2\<close>, and the subprocess was killed exactly when the delay
  got there.
\<close>

definition stopped_in_time :: "int \<Rightarrow> loop_state \<Rightarrow> bool" where
  "stopped_in_time timeout st \<longleftrightarrow>
     delay st = real (length (percents st)) * step
   \<and> delay st \<le> real_of_int timeout + 2
   \<and> (killed st \<longleftrightarrow> delay st = real_of_int timeout + 2)"

text \<open>
  The subprocess does not exit, and is sampled without an exception, in every pass from
  the \<open>n\<close>-th up to and without the \<open>m\<close>-th.
\<close>

definition keeps_running :: "run_env \<Rightarrow> nat \<Rightarrow> nat \<Rightarrow> bool" where
  "keeps_running env n m \<longleftrightarrow> (\<forall>i \<in> set [n..<m]. observed env i \<noteq> None)"


text \<open>The numeric fields of a result, by name.\<close>

definition fields :: "(string \<times> (run_result \<Rightarrow> real)) list" where
  "fields =
    [(''utilization'', utilization),
     (''duration'', duration),
     (''memory'', \<lambda>r. real_of_int (memory r)),
     (''user_time'', user_time),
     (''system_time'', system_time),
     (''cpu_time'', cpu_time),
     (''fds'', \<lambda>r. real_of_int (fds r))]"


text \<open>
  The text between the first colon of a line and its next colon, or the end of the line
  when there is no second colon, trimmed.
\<close>

definition between_colons :: "string \<Rightarrow> string" where
  "between_colons line =
    takeWhile (\<lambda>c. c \<noteq> CHR '':'') (drop 1 (dropWhile (\<lambda>c. c \<noteq> CHR '':'') line))"

definition field_of :: "string \<Rightarrow> string" where
  "field_of line = strip (between_colons line)"

text \<open>The text after the first colon of a line, trimmed: all of the rest of the line.\<close>

definition text_after_first_colon :: "string \<Rightarrow> string" where
  "text_after_first_colon line = strip (drop 1 (dropWhile (\<lambda>c. c \<noteq> CHR '':'') line))"

text \<open>A line that the scan gets past: it holds a colon if it holds one of the keys.\<close>

definition line_ok :: "string \<Rightarrow> bool" where
  "line_ok line \<longleftrightarrow> ((\<exists>k \<in> set summary_keys. sublist k line) \<longrightarrow> CHR '':'' \<in> set line)"

text \<open>
  The summary after the lines \<open>lines\<close>, from the summary \<open>summ\<close>: each key has the
  field of the last line that contains it.
\<close>

definition scanned :: "string list \<Rightarrow> leak_summary \<Rightarrow> leak_summary" where
  "scanned lines summ =
    (\<lambda>k. if k \<in> set summary_keys \<and> filter (sublist k) lines \<noteq> []
         then Some (Some (field_of (last (filter (sublist k) lines))))
         else summ k)"

text \<open>
  The field of a token in what the leak check produced: \<open>None\<close> when the check raised,
  the field (itself null or a string) when it returned a summary with that key.
\<close>

definition summary_field :: "string \<Rightarrow> error + leak_summary \<Rightarrow> string option option" where
  "summary_field key outcome = (case outcome of Inl e \<Rightarrow> None | Inr s \<Rightarrow> s key)"

text \<open>The positions of the samples that are not zero.\<close>

definition nonzero_positions :: "real list \<Rightarrow> nat set" where
  "nonzero_positions ps = {i. i < length ps \<and> ps ! i \<noteq> 0}"

subsection \<open>Facts about the classifier\<close>

lemma rank_loop_None:
  "rank_loop v (enumerate n rs) = None \<longleftrightarrow> (\<forall>r \<in> set rs. \<not> v < r)"
  by (induction rs arbitrary: n) auto

lemma rank_loop_Some:
  "rank_loop v (enumerate n rs) = Some k \<longleftrightarrow>
     n \<le> k \<and> k < n + length rs \<and> v < rs ! (k - n) \<and> (\<forall>j < k - n. \<not> v < rs ! j)"
proof (induction rs arbitrary: n)
  case Nil
  then show ?case by simp
next
  case (Cons r rs)
  show ?case
  proof (cases "v < r")
    case True
    show ?thesis
    proof (cases "k = n")
      case True
      with \<open>v < r\<close> show ?thesis by simp
    next
      case False
      have "\<not> (\<forall>j < k - n. \<not> v < (r # rs) ! j)" if "n \<le> k"
      proof -
        from that False have "0 < k - n" by simp
        with \<open>v < r\<close> show ?thesis by (auto intro: exI [of _ 0])
      qed
      with \<open>v < r\<close> False show ?thesis by auto
    qed
  next
    case False
    have "n \<le> k \<and> k < n + length (r # rs) \<and> v < (r # rs) ! (k - n)
           \<and> (\<forall>j < k - n. \<not> v < (r # rs) ! j)
        \<longleftrightarrow> Suc n \<le> k \<and> k < Suc n + length rs \<and> v < rs ! (k - Suc n)
           \<and> (\<forall>j < k - Suc n. \<not> v < rs ! j)" (is "?L \<longleftrightarrow> ?R")
    proof
      assume L: ?L
      with False have "k \<noteq> n" by auto
      with L have kn: "Suc n \<le> k" by simp
      then have eq: "k - n = Suc (k - Suc n)" by arith
      have "\<forall>j < k - Suc n. \<not> v < rs ! j"
      proof (intro allI impI)
        fix j assume "j < k - Suc n"
        then have "Suc j < k - n" using eq by simp
        with L have "\<not> v < (r # rs) ! Suc j" by blast
        then show "\<not> v < rs ! j" by simp
      qed
      with L kn eq show ?R by simp
    next
      assume R: ?R
      then have "Suc n \<le> k" by blast
      then have eq: "k - n = Suc (k - Suc n)" by arith
      have "\<forall>j < k - n. \<not> v < (r # rs) ! j"
      proof (intro allI impI)
        fix j assume j: "j < k - n"
        show "\<not> v < (r # rs) ! j"
        proof (cases j)
          case 0
          with False show ?thesis by simp
        next
          case (Suc j')
          with j eq have "j' < k - Suc n" by simp
          with R Suc show ?thesis by simp
        qed
      qed
      with R eq show ?L by simp
    qed
    with False Cons.IH [of "Suc n"] show ?thesis by simp
  qed
qed

lemma rank_le_length: "rank v rs \<le> length rs"
proof (cases "rank_loop v (enumerate 0 rs)")
  case None
  then show ?thesis by (simp add: rank_def)
next
  case (Some k)
  then show ?thesis using rank_loop_Some [of v 0 rs k] by (simp add: rank_def)
qed

lemma rank_before: "j < rank v rs \<Longrightarrow> \<not> v < rs ! j"
proof (cases "rank_loop v (enumerate 0 rs)")
  case None
  assume "j < rank v rs"
  with None have "j < length rs" by (simp add: rank_def)
  with None show ?thesis using rank_loop_None [of v 0 rs] by auto
next
  case (Some k)
  assume "j < rank v rs"
  with Some show ?thesis using rank_loop_Some [of v 0 rs k] by (simp add: rank_def)
qed

lemma rank_at: "rank v rs < length rs \<Longrightarrow> v < rs ! rank v rs"
proof (cases "rank_loop v (enumerate 0 rs)")
  case None
  assume "rank v rs < length rs"
  with None show ?thesis by (simp add: rank_def)
next
  case (Some k)
  then show ?thesis using rank_loop_Some [of v 0 rs k] by (simp add: rank_def)
qed

lemma rank_unique:
  assumes "k \<le> length rs" and "\<forall>j < k. \<not> v < rs ! j" and "k < length rs \<longrightarrow> v < rs ! k"
  shows "rank v rs = k"
proof (rule ccontr)
  assume ne: "rank v rs \<noteq> k"
  show False
  proof (cases "rank v rs < k")
    case True
    then have "rank v rs < length rs" using assms(1) by simp
    then have "v < rs ! rank v rs" by (rule rank_at)
    with True assms(2) show False by blast
  next
    case False
    with ne have lt: "k < rank v rs" by simp
    then have "\<not> v < rs ! k" by (rule rank_before)
    moreover have "k < length rs" using lt rank_le_length [of v rs] by simp
    ultimately show False using assms(3) by blast
  qed
qed

lemma rank_mono: "x \<le> y \<Longrightarrow> rank x rs \<le> rank y rs"
proof (rule ccontr)
  assume xy: "x \<le> y" and "\<not> rank x rs \<le> rank y rs"
  then have lt: "rank y rs < rank x rs" by simp
  then have "\<not> x < rs ! rank y rs" by (rule rank_before)
  moreover have "rank y rs < length rs" using lt rank_le_length [of x rs] by simp
  then have "y < rs ! rank y rs" by (rule rank_at)
  ultimately show False using xy by simp
qed

lemma fold_summary_step:
  "distinct (map fst rs) \<Longrightarrow>
   fold (summary_step result) rs acc key =
     (case map_of rs key of
        Some (Thresholds ts) \<Rightarrow> (case result key of Some v \<Rightarrow> Some (rank v ts) | None \<Rightarrow> acc key)
      | _ \<Rightarrow> acc key)"
proof (induction rs arbitrary: acc)
  case Nil
  then show ?case by simp
next
  case (Cons a rs)
  obtain k e where a: "a = (k, e)" by (cases a)
  from Cons.prems a have nk: "map_of rs k = None" and d: "distinct (map fst rs)"
    by (auto simp: map_of_eq_None_iff)
  show ?case
    using Cons.IH [OF d, of "summary_step result a acc"] nk
    by (cases e) (auto simp: a summary_step_def split: option.splits range_entry.splits)
qed

lemma summary_result_key:
  "summary_result result key =
     (case map_of RANGES key of
        Some (Thresholds ts) \<Rightarrow> map_option (\<lambda>v. rank v ts) (result key)
      | _ \<Rightarrow> None)"
proof -
  have "distinct (map fst RANGES)" by (simp add: RANGES_def)
  then show ?thesis
    unfolding summary_result_def
    by (simp add: fold_summary_step split: option.splits range_entry.splits)
qed

lemma metric_thresholds:
  "m \<in> set [''utilization'', ''cpu_time'', ''memory'', ''fds'', ''duration'']
    \<Longrightarrow> \<exists>ts. map_of RANGES m = Some (Thresholds ts)"
  by (auto simp: RANGES_def)



lemma rank_char:
  "rank v ts = k \<longleftrightarrow>
     k \<le> length ts \<and> (\<forall>j < k. \<not> v < ts ! j) \<and> (k < length ts \<longrightarrow> v < ts ! k)"
proof
  assume "rank v ts = k"
  then show "k \<le> length ts \<and> (\<forall>j < k. \<not> v < ts ! j) \<and> (k < length ts \<longrightarrow> v < ts ! k)"
    using rank_le_length [of v ts] rank_before [of _ v ts] rank_at [of v ts] by blast
next
  assume "k \<le> length ts \<and> (\<forall>j < k. \<not> v < ts ! j) \<and> (k < length ts \<longrightarrow> v < ts ! k)"
  then show "rank v ts = k" by (intro rank_unique) blast+
qed

lemma rank_worst: "\<forall>j < length ts. ts ! j \<le> v \<Longrightarrow> rank v ts = length ts"
proof (rule rank_unique)
  assume a: "\<forall>j < length ts. ts ! j \<le> v"
  show "\<forall>j < length ts. \<not> v < ts ! j"
  proof (intro allI impI)
    fix j assume "j < length ts"
    with a have "ts ! j \<le> v" by blast
    then show "\<not> v < ts ! j" by simp
  qed
qed simp_all

lemma summary_result_upd:
  "map_of RANGES m = Some (Thresholds ts) \<Longrightarrow>
     summary_result (result(m \<mapsto> v)) m = Some (rank v ts)"
  by (simp add: summary_result_key)

text \<open>
  Claim C2. For each of the metrics utilization, cpu_time, memory, fds and duration and
  every value, the rank stored by \<^verbatim>\<open>summary\<close> is the rank of the value against
  the metric's thresholds, and that rank is the one index \<open>k\<close> up to the number of
  thresholds with no threshold before \<open>k\<close> above the value and, when \<open>k\<close> is an
  index of the tuple, the \<open>k\<close>-th threshold above the value: the smallest index whose
  threshold exceeds the value, or the length of the tuple when no threshold does. For
  cpu_time the values 0.3, 0.4, 1.0, 10.0 and 50.0 get the ranks 0, 1, 2, 3 and 3.
\<close>

theorem classifier_smallest_index:
  assumes "m \<in> set [''utilization'', ''cpu_time'', ''memory'', ''fds'', ''duration'']"
  shows "\<exists>ts. map_of RANGES m = Some (Thresholds ts)
          \<and> summary_result (result(m \<mapsto> v)) m = Some (rank v ts)
          \<and> (\<forall>k. rank v ts = k \<longleftrightarrow>
                 k \<le> length ts \<and> (\<forall>j < k. \<not> v < ts ! j) \<and> (k < length ts \<longrightarrow> v < ts ! k))
          \<and> ((\<forall>j < length ts. ts ! j \<le> v) \<longrightarrow> rank v ts = length ts)
          \<and> map (\<lambda>x. summary_result [''cpu_time'' \<mapsto> x] ''cpu_time'') [0.3, 0.4, 1.0, 10.0, 50.0]
              = [Some 0, Some 1, Some 2, Some 3, Some 3]"
proof -
  from metric_thresholds [OF assms] obtain ts where ts: "map_of RANGES m = Some (Thresholds ts)" ..
  have e: "map (\<lambda>x. summary_result [''cpu_time'' \<mapsto> x] ''cpu_time'') [0.3, 0.4, 1.0, 10.0, 50.0]
              = [Some 0, Some 1, Some 2, Some 3, Some 3]"
    by (simp add: summary_result_key RANGES_def rank_def)
  show ?thesis
  proof (intro exI [of _ ts] conjI allI impI)
    show "map_of RANGES m = Some (Thresholds ts)" by (rule ts)
    show "summary_result (result(m \<mapsto> v)) m = Some (rank v ts)"
      by (rule summary_result_upd [OF ts])
    show "rank v ts = k \<longleftrightarrow>
           k \<le> length ts \<and> (\<forall>j < k. \<not> v < ts ! j) \<and> (k < length ts \<longrightarrow> v < ts ! k)" for k
      by (rule rank_char)
    show "rank v ts = length ts" if "\<forall>j < length ts. ts ! j \<le> v"
      using that by (rule rank_worst)
    show "map (\<lambda>x. summary_result [''cpu_time'' \<mapsto> x] ''cpu_time'') [0.3, 0.4, 1.0, 10.0, 50.0]
              = [Some 0, Some 1, Some 2, Some 3, Some 3]" by (rule e)
  qed
qed

theorem classifier_smallest_index_witness:
  "summary_result [''cpu_time'' \<mapsto> 0.4] ''cpu_time'' = Some 1 \<and> rank 0.4 [0.4, 1, 10] = 1
   \<and> \<not> (0.4::real) < [0.4, 1, 10] ! 0 \<and> (0.4::real) < [0.4, 1, 10] ! 1"
proof -
  have m: "''cpu_time'' \<in> set [''utilization'', ''cpu_time'', ''memory'', ''fds'', ''duration'']"
    by simp
  from classifier_smallest_index [OF m, of Map.empty "0.4"]
  obtain ts where ts: "map_of RANGES ''cpu_time'' = Some (Thresholds ts)"
    and s: "summary_result [''cpu_time'' \<mapsto> 0.4] ''cpu_time'' = Some (rank 0.4 ts)"
    and c: "\<forall>k. rank 0.4 ts = k \<longleftrightarrow>
                 k \<le> length ts \<and> (\<forall>j < k. \<not> 0.4 < ts ! j) \<and> (k < length ts \<longrightarrow> 0.4 < ts ! k)"
    by blast
  from ts have t: "ts = [0.4, 1, 10]" by (simp add: RANGES_def)
  from c have "rank 0.4 ts = 1 \<longleftrightarrow>
                 1 \<le> length ts \<and> (\<forall>j < 1. \<not> 0.4 < ts ! j) \<and> (1 < length ts \<longrightarrow> 0.4 < ts ! 1)"
    by (rule spec)
  then have "rank 0.4 ts = 1" unfolding t by simp
  with s t show ?thesis by simp
qed
text \<open>
  Claim C9. The rank is monotone in the value: for \<open>x \<le> y\<close> the rank of \<open>x\<close>
  against any threshold tuple is at most the rank of \<open>y\<close>, and so are the ranks that
  \<^verbatim>\<open>summary\<close> stores for any metric.
\<close>

theorem classifier_monotone:
  assumes "x \<le> y"
  shows "rank x ts \<le> rank y ts
         \<and> (summary_result (result(m \<mapsto> x)) m = Some i
            \<and> summary_result (result(m \<mapsto> y)) m = Some j \<longrightarrow> i \<le> j)"
proof -
  have "i \<le> j" if "summary_result (result(m \<mapsto> x)) m = Some i"
    and "summary_result (result(m \<mapsto> y)) m = Some j"
    using that rank_mono [OF assms]
    by (auto simp: summary_result_key split: option.splits range_entry.splits)
  with rank_mono [OF assms] show ?thesis by blast
qed

theorem classifier_monotone_witness:
  "(0.3::real) \<le> 50 \<and> rank 0.3 [0.4, 1, 10] \<le> rank 50 [0.4, 1, 10]
   \<and> summary_result [''fds'' \<mapsto> 5] ''fds'' = Some 0
   \<and> summary_result [''fds'' \<mapsto> 13] ''fds'' = Some 2"
proof -
  have h: "(0.3::real) \<le> 50" by simp
  have a: "summary_result [''fds'' \<mapsto> 5] ''fds'' = Some 0"
    by (simp add: summary_result_key RANGES_def rank_def)
  have b: "summary_result [''fds'' \<mapsto> 13] ''fds'' = Some 2"
    by (simp add: summary_result_key RANGES_def rank_def)
  from classifier_monotone [OF h, of "[0.4, 1, 10]"] a b h show ?thesis by blast
qed

text \<open>
  Claim C5. Every result that \<^verbatim>\<open>run_query\<close> returns has a \<open>cpu_time\<close> equal to
  the sum of its \<open>user_time\<close> and its \<open>system_time\<close>.
\<close>

theorem cpu_time_is_user_plus_system:
  "run_query env timeout = Some (Inr r) \<Longrightarrow> cpu_time r = user_time r + system_time r"
  by (auto simp: run_query_def build_result_def split: option.splits sum.splits)



lemma collected_refl: "collected env n st st"
  unfolding collected_def by (intro exI [of _ 0]) simp

lemma collected_last:
  assumes "is_running (polls env n)" and "sampled (polls env n) = Inr p"
  shows "collected env n st
     \<lparr>delay = delay st + step,
      percents = percents st @ [stat_utilization (get_stats (platform env) p)],
      stats = Some (get_stats (platform env) p), killed = b\<rparr>"
  unfolding collected_def using assms
  by (intro exI [of _ 1]) (simp add: observed_def get_stats_def)

lemma collected_step:
  assumes "is_running (polls env n)" and "sampled (polls env n) = Inr p"
    and "collected env (Suc n)
     \<lparr>delay = delay st + step,
      percents = percents st @ [stat_utilization (get_stats (platform env) p)],
      stats = Some (get_stats (platform env) p), killed = b\<rparr> st'"
  shows "collected env n st st'"
proof -
  from assms(3) obtain k where
    p: "map Some (percents st') =
          map Some (percents st @ [stat_utilization (get_stats (platform env) p)])
          @ map (observed env) [Suc n..<Suc n + k]"
    and d: "delay st' = delay st + step + real k * step"
    and s: "stats st' \<noteq> None"
    unfolding collected_def by (cases "stats st'") auto
  have o: "observed env n = Some (stat_utilization (get_stats (platform env) p))"
    using assms(1,2) by (simp add: observed_def get_stats_def)
  have u: "[n..<n + Suc k] = n # [Suc n..<Suc n + k]"
    by (simp add: upt_conv_Cons)
  have "map Some (percents st') = map Some (percents st) @ map (observed env) [n..<n + Suc k]"
    unfolding u using p o by simp
  moreover have "delay st' = delay st + real (Suc k) * step"
    using d by (simp add: algebra_simps)
  ultimately show ?thesis
    unfolding collected_def using s by (intro exI [of _ "Suc k"]) simp
qed

subsection \<open>Facts about the run executor\<close>

lemma poll_loop_collected:
  assumes "poll_loop env timeout n st = Some y"
  shows "\<forall>st'. y = Inr st' \<longrightarrow> collected env n st st'"
proof (rule poll_loop.raw_induct
    [where P = "\<lambda>env timeout n st y. \<forall>st'. y = Inr st' \<longrightarrow> collected env n st st'",
     OF _ assms], goal_cases)
  case (1 f env timeout n st y)
  note IH = "1"(1) and eq = "1"(2)
  show ?case
  proof (cases "is_running (polls env n)")
    case False
    with eq show ?thesis by (auto simp: collected_refl)
  next
    case run: True
    show ?thesis
    proof (cases "sampled (polls env n)")
      case (Inl e)
      with run eq show ?thesis by (auto simp: collected_refl split: if_splits)
    next
      case (Inr p)
      show ?thesis
      proof (cases "0 < timeout \<and> real_of_int timeout + 2 \<le> delay st + step")
        case True
        with run Inr eq show ?thesis
          using collected_last [OF run Inr, of st True] by auto
      next
        case False
        with run Inr eq
        have "f env timeout (Suc n)
                \<lparr>delay = delay st + step,
                 percents = percents st @ [stat_utilization (get_stats (platform env) p)],
                 stats = Some (get_stats (platform env) p), killed = killed st\<rparr> = Some y"
          by simp
        from IH [OF this] show ?thesis
          using collected_step [OF run Inr] by blast
      qed
    qed
  qed
qed


lemma sum_list_filter_nonzero: "sum_list (filter (\<lambda>p. p \<noteq> 0) ps) = sum_list (ps :: real list)"
  by (induction ps) auto

lemma sum_nonzero_positions:
  "(\<Sum>i \<in> nonzero_positions ps. ps ! i) = sum_list ps"
proof -
  have "(\<Sum>i \<in> nonzero_positions ps. ps ! i) = (\<Sum>i \<in> {0..<length ps}. ps ! i)"
    by (rule sum.mono_neutral_left) (auto simp: nonzero_positions_def)
  then show ?thesis by (simp add: sum_list_sum_nth)
qed

lemma card_nonzero_positions:
  "card (nonzero_positions ps) = length (filter (\<lambda>p. p \<noteq> 0) ps)"
  by (simp add: nonzero_positions_def length_filter_conv_card)

lemma nonzero_positions_empty:
  "nonzero_positions ps = {} \<longleftrightarrow> (\<forall>p \<in> set ps. p = 0)"
  by (auto simp: nonzero_positions_def in_set_conv_nth dest: nth_mem)

lemma avg_utilization_mean:
  "avg_utilization ps =
     (if nonzero_positions ps = {} then 0
      else (\<Sum>i \<in> nonzero_positions ps. ps ! i) / real (card (nonzero_positions ps)))"
proof (cases "nonzero_positions ps = {}")
  case True
  then have "filter (\<lambda>p. p \<noteq> 0) ps = []"
    by (simp add: nonzero_positions_empty filter_empty_conv)
  with True show ?thesis by (simp add: avg_utilization_def)
next
  case False
  have "finite (nonzero_positions ps)" by (simp add: nonzero_positions_def)
  with False have "card (nonzero_positions ps) \<noteq> 0" by simp
  then have "length (filter (\<lambda>p. p \<noteq> 0) ps) \<noteq> 0" by (simp add: card_nonzero_positions)
  with False show ?thesis
    by (simp add: avg_utilization_def Let_def sum_nonzero_positions card_nonzero_positions
        sum_list_filter_nonzero)
qed

lemma run_query_result:
  assumes "run_query env timeout = Some (Inr r)"
  shows "\<exists>st. poll_loop env timeout 0 initial_state = Some (Inr st)
           \<and> build_result env st = Inr r"
  using assms by (auto simp: run_query_def split: option.splits sum.splits)

lemma build_result_utilization:
  "build_result env st = Inr r \<Longrightarrow> utilization r = avg_utilization (percents st)"
  by (auto simp: build_result_def split: option.splits)

lemma collected_initial:
  assumes "collected env 0 initial_state st"
  shows "map Some (percents st) = map (observed env) [0..<length (percents st)]"
proof -
  from assms obtain k where
    k: "map Some (percents st) = map (observed env) [0..<k]"
    unfolding collected_def initial_state_def by auto
  then have "length (map Some (percents st)) = length (map (observed env) [0..<k])" by simp
  then have "length (percents st) = k" by simp
  with k show ?thesis by simp
qed

text \<open>
  The utilization computed from a list of samples is the sum of the samples at the
  positions holding a non-zero sample, divided by the number of those positions, and it
  is 0 when there is no such position, that is when every sample is zero or the list is
  empty. Every result that \<^verbatim>\<open>run_query\<close> returns carries that value for the samples
  its loop collected, which are the utilizations the sampler returned, in order. The
  samples 0, 0, 10, 20, 0 give (10 + 20) / 2, the samples 0, 0, 0 give 0.
\<close>

theorem utilization_mean_of_nonzero:
  "avg_utilization ps =
     (if nonzero_positions ps = {} then 0
      else (\<Sum>i \<in> nonzero_positions ps. ps ! i) / real (card (nonzero_positions ps)))
   \<and> (nonzero_positions ps = {} \<longleftrightarrow> (\<forall>p \<in> set ps. p = 0))
   \<and> (run_query env timeout = Some (Inr r) \<longrightarrow>
        (\<exists>st. poll_loop env timeout 0 initial_state = Some (Inr st)
            \<and> map Some (percents st) = map (observed env) [0..<length (percents st)]
            \<and> utilization r = avg_utilization (percents st)))
   \<and> avg_utilization [0, 0, 10, 20, 0] = (10 + 20) / 2
   \<and> avg_utilization [0, 0, 0] = 0
   \<and> avg_utilization [] = 0"
proof (intro conjI impI)
  show "avg_utilization ps =
     (if nonzero_positions ps = {} then 0
      else (\<Sum>i \<in> nonzero_positions ps. ps ! i) / real (card (nonzero_positions ps)))"
    by (rule avg_utilization_mean)
  show "nonzero_positions ps = {} \<longleftrightarrow> (\<forall>p \<in> set ps. p = 0)"
    by (rule nonzero_positions_empty)
  show "avg_utilization [0, 0, 10, 20, 0] = (10 + 20) / 2" by (simp add: avg_utilization_def)
  show "avg_utilization [0, 0, 0] = 0" by (simp add: avg_utilization_def)
  show "avg_utilization [] = 0" by (simp add: avg_utilization_def)
next
  assume "run_query env timeout = Some (Inr r)"
  then obtain st where st: "poll_loop env timeout 0 initial_state = Some (Inr st)"
    and b: "build_result env st = Inr r"
    using run_query_result by blast
  from poll_loop_collected [OF st] have "collected env 0 initial_state st" by simp
  then have "map Some (percents st) = map (observed env) [0..<length (percents st)]"
    by (rule collected_initial)
  with st build_result_utilization [OF b]
  show "\<exists>st. poll_loop env timeout 0 initial_state = Some (Inr st)
            \<and> map Some (percents st) = map (observed env) [0..<length (percents st)]
            \<and> utilization r = avg_utilization (percents st)"
    by blast
qed

lemma short_env_loop:
  "poll_loop (short_env s) 0 0 initial_state =
     Some (Inr \<lparr>delay = 2.5, percents = [0, 0, 10, 20, 0],
                stats = Some (get_stats ''linux2'' (sample_info 0 s)), killed = False\<rparr>)"
  by (simp add: poll_loop.simps short_env_def initial_state_def step_def get_stats_def
      sample_info_def)

lemma short_env_run:
  "run_query (short_env s) 0 =
     Some (Inr \<lparr>utilization = 15, duration = 3, memory = 4096, user_time = s,
                system_time = 0.25, cpu_time = s + 0.25, fds = 5\<rparr>)"
  by (simp add: run_query_def short_env_loop build_result_def avg_utilization_def get_stats_def
      sample_info_def) (simp add: short_env_def)

theorem utilization_mean_of_nonzero_witness:
  "\<exists>r st. run_query (short_env 2) 0 = Some (Inr r)
     \<and> poll_loop (short_env 2) 0 0 initial_state = Some (Inr st)
     \<and> percents st = [0, 0, 10, 20, 0] \<and> utilization r = 15"
proof -
  let ?r = "\<lparr>utilization = 15, duration = 3, memory = 4096, user_time = 2,
             system_time = 0.25, cpu_time = 2 + 0.25, fds = 5\<rparr>"
  have run: "run_query (short_env 2) 0 = Some (Inr ?r)" by (rule short_env_run)
  from utilization_mean_of_nonzero [of "[]" "short_env 2" 0 ?r] run
  obtain st where st: "poll_loop (short_env 2) 0 0 initial_state = Some (Inr st)"
    and u: "utilization ?r = avg_utilization (percents st)"
    by blast
  from st have "percents st = [0, 0, 10, 20, 0]" by (auto simp: short_env_loop)
  with run st show ?thesis by auto
qed

theorem cpu_time_is_user_plus_system_witness:
  "\<exists>r. run_query (short_env 2) 0 = Some (Inr r) \<and> cpu_time r = 2.25
      \<and> user_time r = 2 \<and> system_time r = 0.25"
proof -
  let ?r = "\<lparr>utilization = 15, duration = 3, memory = 4096, user_time = 2,
             system_time = 0.25, cpu_time = 2 + 0.25, fds = 5\<rparr>"
  have run: "run_query (short_env 2) 0 = Some (Inr ?r)" by (rule short_env_run)
  from cpu_time_is_user_plus_system [OF run] have "cpu_time ?r = user_time ?r + system_time ?r" .
  with run show ?thesis by auto
qed

text \<open>
  A run that returns a result has collected a sample: the loop that collects none leaves
  \<open>stats\<close> unbound, and building the result raises.
\<close>

lemma returned_result_has_a_sample:
  assumes "run_query env timeout = Some (Inr r)"
    and "poll_loop env timeout 0 initial_state = Some (Inr st)"
  shows "percents st \<noteq> []"
proof
  assume e: "percents st = []"
  from poll_loop_collected [OF assms(2)] have "collected env 0 initial_state st" by simp
  then obtain k where p: "map Some (percents st) = map (observed env) [0..<k]"
    and z: "k = 0 \<longrightarrow> stats st = stats initial_state"
    unfolding collected_def initial_state_def by auto
  from p e have "length (map (observed env) [0..<k]) = 0" by simp
  then have "k = 0" by simp
  with z have "stats st = None" by (simp add: initial_state_def)
  then have "build_result env st = Inl UnboundLocalError" by (simp add: build_result_def)
  with assms show False by (simp add: run_query_def)
qed

text \<open>
  Claim C1, at a run that collects no sample (the subprocess has exited before the first
  poll): the loop ends in its initial state with an empty list of samples, the
  utilization computed from that list is 0, and the run raises instead of returning a
  result whose utilization field is 0. For the runs that return a result the field is
  the mean of the non-zero samples, and 0 when every sample is zero, as shown above.
\<close>

theorem no_sample_utilization_is_not_returned:
  "poll_loop exited_env 0 0 initial_state = Some (Inr initial_state)
   \<and> percents initial_state = []
   \<and> avg_utilization (percents initial_state) = 0
   \<and> build_result exited_env initial_state = Inl UnboundLocalError
   \<and> run_query exited_env 0 = Some (Inl UnboundLocalError)"
  by (simp add: run_query_def poll_loop.simps exited_env_def initial_state_def
      build_result_def avg_utilization_def)


lemma observed_running:
  "observed env n \<noteq> None \<longleftrightarrow> is_running (polls env n) \<and> (\<exists>p. sampled (polls env n) = Inr p)"
  by (auto simp: observed_def split: sum.splits)

lemma poll_loop_stop:
  assumes "observed env n = None"
  shows "poll_loop env timeout n st = Some (Inr st)
        \<or> (\<exists>e. poll_loop env timeout n st = Some (Inl e))"
proof (cases "is_running (polls env n)")
  case False
  then have "poll_loop env timeout n st = Some (Inr st)"
    by (subst poll_loop.simps) simp
  then show ?thesis ..
next
  case True
  with assms obtain e where e: "sampled (polls env n) = Inl e"
    by (cases "sampled (polls env n)") (auto simp: observed_def)
  show ?thesis
  proof (cases "e = AccessDenied")
    case True
    with \<open>is_running (polls env n)\<close> e have "poll_loop env timeout n st = Some (Inr st)"
      by (subst poll_loop.simps) simp
    then show ?thesis ..
  next
    case False
    with \<open>is_running (polls env n)\<close> e have "poll_loop env timeout n st = Some (Inl e)"
      by (subst poll_loop.simps) simp
    then show ?thesis by blast
  qed
qed

lemma poll_loop_kill:
  assumes "is_running (polls env n)" and "sampled (polls env n) = Inr p"
    and "0 < timeout" and "real_of_int timeout + 2 \<le> delay st + step"
  shows "poll_loop env timeout n st =
    Some (Inr \<lparr>delay = delay st + step,
               percents = percents st @ [stat_utilization (get_stats (platform env) p)],
               stats = Some (get_stats (platform env) p), killed = True\<rparr>)"
  using assms by (subst poll_loop.simps) simp

lemma poll_loop_continue:
  assumes "is_running (polls env n)" and "sampled (polls env n) = Inr p"
    and "\<not> (0 < timeout \<and> real_of_int timeout + 2 \<le> delay st + step)"
  shows "poll_loop env timeout n st =
    poll_loop env timeout (Suc n)
      \<lparr>delay = delay st + step,
       percents = percents st @ [stat_utilization (get_stats (platform env) p)],
       stats = Some (get_stats (platform env) p), killed = killed st\<rparr>"
  using assms by (subst poll_loop.simps, cases "0 < timeout") simp_all


lemma keeps_running_Suc:
  "keeps_running env n m \<Longrightarrow> keeps_running env (Suc n) m"
  by (simp add: keeps_running_def)

lemma keeps_running_first:
  "keeps_running env n m \<Longrightarrow> n < m \<Longrightarrow> observed env n \<noteq> None"
  by (simp add: keeps_running_def)

lemma poll_loop_timeout:
  assumes t: "0 < timeout"
  shows "delay st = real n * step \<Longrightarrow> length (percents st) = n \<Longrightarrow> \<not> killed st
     \<Longrightarrow> n < nat (2 * timeout + 4)
     \<Longrightarrow> \<exists>r. poll_loop env timeout n st = Some r
           \<and> (\<forall>st'. r = Inr st' \<longrightarrow> stopped_in_time timeout st')
           \<and> (keeps_running env n (nat (2 * timeout + 4)) \<longrightarrow>
                 (\<exists>st'. r = Inr st' \<and> killed st' \<and> stats st' \<noteq> None))"
proof (induction "nat (2 * timeout + 4) - n" arbitrary: n st rule: less_induct)
  case less
  define N where "N = nat (2 * timeout + 4)"
  have N: "real N = 2 * real_of_int timeout + 4" using t by (simp add: N_def)
  note d = \<open>delay st = real n * step\<close> and l = \<open>length (percents st) = n\<close>
    and k = \<open>\<not> killed st\<close> and n = \<open>n < nat (2 * timeout + 4)\<close>
  from n have nN: "real n < real N" by (simp add: N_def)
  have below: "delay st < real_of_int timeout + 2"
    using d nN N by (simp add: step_def)
  have here: "stopped_in_time timeout st"
    using d l k below by (simp add: stopped_in_time_def)
  show ?case
  proof (cases "observed env n")
    case None
    then have alt: "poll_loop env timeout n st = Some (Inr st)
        \<or> (\<exists>e. poll_loop env timeout n st = Some (Inl e))"
      by (rule poll_loop_stop)
    have nev: "\<not> keeps_running env n (nat (2 * timeout + 4))"
      using None n keeps_running_first by blast
    from alt show ?thesis
    proof
      assume a: "poll_loop env timeout n st = Some (Inr st)"
      show ?thesis unfolding a using here nev by simp
    next
      assume "\<exists>e. poll_loop env timeout n st = Some (Inl e)"
      then obtain e where b: "poll_loop env timeout n st = Some (Inl e)" ..
      show ?thesis unfolding b using nev by simp
    qed
  next
    case (Some u)
    then obtain p where run: "is_running (polls env n)" and p: "sampled (polls env n) = Inr p"
      using observed_running [of env n] by auto
    let ?st = "\<lambda>b. \<lparr>delay = delay st + step,
                    percents = percents st @ [stat_utilization (get_stats (platform env) p)],
                    stats = Some (get_stats (platform env) p), killed = b\<rparr>"
    show ?thesis
    proof (cases "real_of_int timeout + 2 \<le> delay st + step")
      case True
      have r: "poll_loop env timeout n st = Some (Inr (?st True))"
        by (rule poll_loop_kill [OF run p t True])
      from True d N nN have "real N \<le> real (n + 1)" by (simp add: step_def)
      then have "N \<le> n + 1" by (simp only: of_nat_le_iff)
      moreover from n have "n < N" by (simp add: N_def)
      ultimately have "N = n + 1" by simp
      then have "real N = real n + 1" by simp
      with d N have e: "delay st + step = real_of_int timeout + 2" by (simp add: step_def)
      have "delay st + step = real (Suc n) * step" using d by (simp add: algebra_simps)
      with e l have "stopped_in_time timeout (?st True)"
        by (simp add: stopped_in_time_def)
      then show ?thesis unfolding r by simp
    next
      case False
      then have "\<not> (0 < timeout \<and> real_of_int timeout + 2 \<le> delay st + step)" by simp
      then have r: "poll_loop env timeout n st = poll_loop env timeout (Suc n) (?st (killed st))"
        by (rule poll_loop_continue [OF run p])
      from False d N have "real (Suc n) < real N" by (simp add: step_def)
      then have "Suc n < N" by (simp only: of_nat_less_iff)
      then have sn: "Suc n < nat (2 * timeout + 4)" by (simp only: N_def)
      then have m: "nat (2 * timeout + 4) - Suc n < nat (2 * timeout + 4) - n" by simp
      have d': "delay (?st (killed st)) = real (Suc n) * step"
        using d by (simp add: algebra_simps)
      have l': "length (percents (?st (killed st))) = Suc n" using l by simp
      have k': "\<not> killed (?st (killed st))" using k by simp
      from less.hyps [OF m d' l' k' sn]
      obtain r' where r': "poll_loop env timeout (Suc n) (?st (killed st)) = Some r'"
        and s': "\<forall>st'. r' = Inr st' \<longrightarrow> stopped_in_time timeout st'"
        and n': "keeps_running env (Suc n) (nat (2 * timeout + 4)) \<longrightarrow>
                 (\<exists>st'. r' = Inr st' \<and> killed st' \<and> stats st' \<noteq> None)"
        by blast
      from n' keeps_running_Suc
      have "keeps_running env n (nat (2 * timeout + 4)) \<longrightarrow>
                 (\<exists>st'. r' = Inr st' \<and> killed st' \<and> stats st' \<noteq> None)"
        by blast
      with r' s' show ?thesis unfolding r by blast
    qed
  qed
qed

text \<open>
  Claim C4. With a timeout above 0 the polling loop ends in every environment: it never
  polls without end, and \<^verbatim>\<open>run_query\<close> returns or raises. When it ends without an
  exception the delay is at most \<open>timeout + 2\<close>, and the subprocess has been killed
  exactly when the delay has reached \<open>timeout + 2\<close>; no pass follows the kill, since
  the delay is one step per collected sample. A subprocess that never exits within the
  \<open>2 * timeout + 4\<close> passes that the bound allows is killed, at the delay
  \<open>timeout + 2\<close>, and \<^verbatim>\<open>run_query\<close> returns a result.
\<close>

theorem timeout_stops_polling:
  assumes "0 < timeout"
  shows "\<exists>r. poll_loop env timeout 0 initial_state = Some r
          \<and> run_query env timeout \<noteq> None
          \<and> (\<forall>st. r = Inr st \<longrightarrow> stopped_in_time timeout st)
          \<and> (keeps_running env 0 (nat (2 * timeout + 4)) \<longrightarrow>
               (\<exists>st res. r = Inr st \<and> killed st \<and> delay st = real_of_int timeout + 2
                  \<and> run_query env timeout = Some (Inr res)))"
proof -
  have n: "0 < nat (2 * timeout + 4)" using assms by simp
  have "\<exists>r. poll_loop env timeout 0 initial_state = Some r
           \<and> (\<forall>st'. r = Inr st' \<longrightarrow> stopped_in_time timeout st')
           \<and> (keeps_running env 0 (nat (2 * timeout + 4)) \<longrightarrow>
                 (\<exists>st'. r = Inr st' \<and> killed st' \<and> stats st' \<noteq> None))"
    by (rule poll_loop_timeout [OF assms _ _ _ n]) (simp_all add: initial_state_def)
  then obtain r where r: "poll_loop env timeout 0 initial_state = Some r"
    and s: "\<forall>st'. r = Inr st' \<longrightarrow> stopped_in_time timeout st'"
    and k: "keeps_running env 0 (nat (2 * timeout + 4)) \<longrightarrow>
                 (\<exists>st'. r = Inr st' \<and> killed st' \<and> stats st' \<noteq> None)"
    by blast
  have ret: "run_query env timeout \<noteq> None"
    using r by (cases r) (simp_all add: run_query_def)
  have "\<exists>st res. r = Inr st \<and> killed st \<and> delay st = real_of_int timeout + 2
                  \<and> run_query env timeout = Some (Inr res)"
    if "keeps_running env 0 (nat (2 * timeout + 4))"
  proof -
    from k that obtain st where st: "r = Inr st" and kd: "killed st" and b: "stats st \<noteq> None"
      by blast
    from s st have "stopped_in_time timeout st" by blast
    with kd have d: "delay st = real_of_int timeout + 2" by (simp add: stopped_in_time_def)
    from b obtain res where "build_result env st = Inr res"
      by (auto simp: build_result_def)
    with r st have "run_query env timeout = Some (Inr res)" by (simp add: run_query_def)
    with st kd d show ?thesis by blast
  qed
  with r ret s show ?thesis by blast
qed

lemma steady_env_keeps_running: "keeps_running steady_env n m"
  by (simp add: keeps_running_def observed_def steady_env_def)

theorem timeout_stops_polling_witness:
  "(0::int) < 2 \<and> keeps_running steady_env 0 (nat (2 * 2 + 4))
   \<and> (\<exists>st res. poll_loop steady_env 2 0 initial_state = Some (Inr st)
         \<and> killed st \<and> delay st = 4 \<and> length (percents st) = 8
         \<and> run_query steady_env 2 = Some (Inr res))"
proof -
  have t: "(0::int) < 2" by simp
  have kr: "keeps_running steady_env 0 (nat (2 * 2 + 4))" by (rule steady_env_keeps_running)
  from timeout_stops_polling [OF t, of steady_env] kr
  obtain st res where r: "poll_loop steady_env 2 0 initial_state = Some (Inr st)"
    and s: "stopped_in_time 2 st" and k: "killed st" and d: "delay st = real_of_int 2 + 2"
    and q: "run_query steady_env 2 = Some (Inr res)"
    by blast
  from s d have "real (length (percents st)) * step = 4" by (simp add: stopped_in_time_def)
  then have "length (percents st) = 8" by (simp add: step_def)
  with t kr r k d q show ?thesis by auto
qed

text \<open>
  Claim C7, at two runs that take no sample: the subprocess has exited before the first
  poll, or the first sampling is denied. The loop ends with \<open>stats\<close> unbound, and
  building the result raises instead of returning one.
\<close>

theorem run_without_sample_raises:
  "run_query exited_env 0 = Some (Inl UnboundLocalError)
   \<and> run_query denied_env 0 = Some (Inl UnboundLocalError)"
  by (simp add: run_query_def poll_loop.simps exited_env_def denied_env_def initial_state_def
      build_result_def)


subsection \<open>Facts about the round aggregator\<close>



lemma iteritems_fields: "iteritems r = map (\<lambda>(k, f). (k, f r)) fields"
  by (simp add: iteritems_def fields_def)













subsection \<open>Facts about the leak checker\<close>

lemma find_from_sublist: "0 \<le> i \<Longrightarrow> 0 \<le> find_from i s key \<longleftrightarrow> sublist key s"
proof (induction s arbitrary: i)
  case Nil
  then show ?case by simp
next
  case (Cons c cs)
  show ?case
  proof (cases "prefix key (c # cs)")
    case True
    then have "sublist key (c # cs)" by (rule prefix_imp_sublist)
    with True Cons.prems show ?thesis by simp
  next
    case False
    from Cons.prems have "0 \<le> i + 1" by simp
    from Cons.IH [OF this] False show ?thesis by (simp add: sublist_Cons_right)
  qed
qed

lemma str_find_sublist: "0 \<le> str_find s key \<longleftrightarrow> sublist key s"
  by (simp add: str_find_def find_from_sublist)

lemma str_split_not_Nil: "str_split sep s \<noteq> []"
  by (induction s) (auto split: list.splits)

lemma str_split_no_sep: "sep \<notin> set s \<Longrightarrow> str_split sep s = [s]"
  by (induction s) auto

lemma hd_str_split: "hd (str_split sep s) = takeWhile (\<lambda>c. c \<noteq> sep) s"
  by (induction s) (auto simp: str_split_not_Nil split: list.splits)

lemma str_split_sep:
  "sep \<in> set s \<Longrightarrow>
     str_split sep s =
       takeWhile (\<lambda>c. c \<noteq> sep) s # str_split sep (drop 1 (dropWhile (\<lambda>c. c \<noteq> sep) s))"
  by (induction s) (auto simp: str_split_not_Nil split: list.splits)

lemma str_split_second:
  assumes "sep \<in> set s"
  shows "\<exists>others. str_split sep s =
           takeWhile (\<lambda>c. c \<noteq> sep) s
           # takeWhile (\<lambda>c. c \<noteq> sep) (drop 1 (dropWhile (\<lambda>c. c \<noteq> sep) s)) # others"
proof -
  let ?rest = "drop 1 (dropWhile (\<lambda>c. c \<noteq> sep) s)"
  obtain p ps where p: "str_split sep ?rest = p # ps"
    using str_split_not_Nil [of sep ?rest] by (cases "str_split sep ?rest") auto
  with hd_str_split [of sep ?rest] have "p = takeWhile (\<lambda>c. c \<noteq> sep) ?rest" by simp
  with p str_split_sep [OF assms] show ?thesis by simp
qed

lemma scan_keys_colon:
  assumes "CHR '':'' \<in> set line"
  shows "scan_keys line keys summ =
     Inr (\<lambda>k. if k \<in> set keys \<and> sublist k line then Some (Some (field_of line)) else summ k)"
proof (induction keys arbitrary: summ)
  case Nil
  then show ?case by simp
next
  case (Cons key keys)
  from str_split_second [OF assms] obtain first others where
    sp: "str_split CHR '':'' line = first # between_colons line # others"
    unfolding between_colons_def by blast
  show ?case
  proof (cases "sublist key line")
    case True
    then have "scan_keys line (key # keys) summ =
        scan_keys line keys (summ(key \<mapsto> Some (field_of line)))"
      by (simp add: str_find_sublist sp field_of_def)
    also have "\<dots> = Inr (\<lambda>k. if k \<in> set keys \<and> sublist k line then Some (Some (field_of line))
                          else (summ(key \<mapsto> Some (field_of line))) k)"
      by (rule Cons.IH)
    also have "\<dots> = Inr (\<lambda>k. if k \<in> set (key # keys) \<and> sublist k line
                          then Some (Some (field_of line)) else summ k)"
      using True by (auto simp: fun_eq_iff)
    finally show ?thesis .
  next
    case False
    then have "scan_keys line (key # keys) summ = scan_keys line keys summ"
      by (simp add: str_find_sublist)
    also have "\<dots> = Inr (\<lambda>k. if k \<in> set keys \<and> sublist k line then Some (Some (field_of line))
                          else summ k)"
      by (rule Cons.IH)
    also have "\<dots> = Inr (\<lambda>k. if k \<in> set (key # keys) \<and> sublist k line
                          then Some (Some (field_of line)) else summ k)"
      using False by (auto simp: fun_eq_iff)
    finally show ?thesis .
  qed
qed

lemma scan_keys_no_match:
  "\<forall>k \<in> set keys. \<not> sublist k line \<Longrightarrow> scan_keys line keys summ = Inr summ"
  by (induction keys arbitrary: summ) (simp_all add: str_find_sublist)

lemma scan_keys_no_colon:
  assumes "CHR '':'' \<notin> set line"
  shows "\<exists>k \<in> set keys. sublist k line \<Longrightarrow> scan_keys line keys summ = Inl IndexError"
proof (induction keys arbitrary: summ)
  case Nil
  then show ?case by simp
next
  case (Cons key keys)
  show ?case
  proof (cases "sublist key line")
    case True
    then show ?thesis by (simp add: str_find_sublist str_split_no_sep [OF assms])
  next
    case False
    with Cons.prems have "\<exists>k \<in> set keys. sublist k line" by simp
    from Cons.IH [OF this] False show ?thesis by (simp add: str_find_sublist)
  qed
qed

lemma scan_keys_eq:
  "scan_keys line summary_keys summ =
     (if line_ok line
      then Inr (\<lambda>k. if k \<in> set summary_keys \<and> sublist k line
                     then Some (Some (field_of line)) else summ k)
      else Inl IndexError)"
proof (cases "CHR '':'' \<in> set line")
  case True
  then have "line_ok line" by (simp add: line_ok_def)
  with scan_keys_colon [OF True] show ?thesis by simp
next
  case False
  show ?thesis
  proof (cases "\<exists>k \<in> set summary_keys. sublist k line")
    case True
    with False have "\<not> line_ok line" by (simp add: line_ok_def)
    with scan_keys_no_colon [OF False True] show ?thesis by simp
  next
    case no: False
    then have ok: "line_ok line" by (simp add: line_ok_def)
    from no have "scan_keys line summary_keys summ = Inr summ"
      by (intro scan_keys_no_match) blast
    moreover from no have "(\<lambda>k. if k \<in> set summary_keys \<and> sublist k line
                     then Some (Some (field_of line)) else summ k) = summ"
      by (auto simp: fun_eq_iff)
    ultimately show ?thesis using ok by simp
  qed
qed

lemma scanned_Cons:
  "scanned ls (\<lambda>k. if k \<in> set summary_keys \<and> sublist k l
                   then Some (Some (field_of l)) else summ k)
   = scanned (l # ls) summ"
  by (auto simp: scanned_def fun_eq_iff)

lemma scan_lines_eq:
  "scan_lines lines summ =
     (if \<forall>l \<in> set lines. line_ok l then Inr (scanned lines summ) else Inl IndexError)"
proof (induction lines arbitrary: summ)
  case Nil
  then show ?case by (simp add: scanned_def)
next
  case (Cons l ls)
  show ?case
  proof (cases "line_ok l")
    case False
    then show ?thesis by (simp add: scan_keys_eq)
  next
    case True
    then have "scan_lines (l # ls) summ =
        scan_lines ls (\<lambda>k. if k \<in> set summary_keys \<and> sublist k l
                           then Some (Some (field_of l)) else summ k)"
      by (simp add: scan_keys_eq)
    also have "\<dots> = (if \<forall>l \<in> set ls. line_ok l then Inr (scanned (l # ls) summ)
                     else Inl IndexError)"
      by (simp only: Cons.IH scanned_Cons)
    finally show ?thesis using True by simp
  qed
qed

lemma check_leaks_linux_eq:
  "check_leaks_linux stderr =
     (if \<exists>c \<in> set stderr. digit7 c then Inl UnicodeDecodeError
      else if \<forall>l \<in> set (str_split CHR 0x0A stderr). line_ok l
      then Inr (scanned (str_split CHR 0x0A stderr) empty_summary)
      else Inl IndexError)"
  by (simp add: check_leaks_linux_def scan_lines_eq)

lemma empty_summary_key: "key \<in> set summary_keys \<Longrightarrow> empty_summary key = Some None"
  by (auto simp: summary_keys_def empty_summary_def)

lemma between_colons_second:
  assumes "CHR '':'' \<in> set line"
  shows "1 < length (str_split CHR '':'' line) \<and> str_split CHR '':'' line ! 1 = between_colons line"
proof -
  from str_split_second [OF assms] obtain first others where
    "str_split CHR '':'' line = first # between_colons line # others"
    unfolding between_colons_def by blast
  then show ?thesis by simp
qed

text \<open>
  Claim C6 as stated fails: on a line with two colons the field is the text up to the
  second colon, not all of the text after the first.
\<close>

theorem leak_field_after_first_colon_counterexample:
  "summary_field ''definitely'' (check_leaks_linux ''definitely lost: 120 bytes: 3 blocks'')
     = Some (Some ''120 bytes'')
   \<and> text_after_first_colon ''definitely lost: 120 bytes: 3 blocks'' = ''120 bytes: 3 blocks''
   \<and> summary_field ''definitely'' (check_leaks_linux ''definitely lost: 120 bytes: 3 blocks'')
     \<noteq> Some (Some (text_after_first_colon ''definitely lost: 120 bytes: 3 blocks''))"
  by code_simp

text \<open>
  Claim C6, amended. The leak check returns a summary exactly when its input is ASCII
  and every line that contains one of the three tokens contains a colon. In a summary
  it returns, the field of a token is null if no line contains the token, and otherwise
  the text between the first colon and the next colon (or the end of the line) of the
  last line that contains the token, trimmed.
\<close>

theorem leak_field_between_colons:
  "((\<exists>s'. check_leaks_linux stderr = Inr s') \<longleftrightarrow>
      (\<forall>c \<in> set stderr. \<not> digit7 c) \<and> (\<forall>l \<in> set (str_split CHR 0x0A stderr). line_ok l))
   \<and> (check_leaks_linux stderr = Inr s \<and> key \<in> set summary_keys \<longrightarrow>
        s key =
          (if filter (sublist key) (str_split CHR 0x0A stderr) = [] then Some None
           else Some (Some (strip (between_colons
                  (last (filter (sublist key) (str_split CHR 0x0A stderr))))))))"
proof (intro conjI impI)
  show "(\<exists>s'. check_leaks_linux stderr = Inr s') \<longleftrightarrow>
      (\<forall>c \<in> set stderr. \<not> digit7 c) \<and> (\<forall>l \<in> set (str_split CHR 0x0A stderr). line_ok l)"
    by (simp add: check_leaks_linux_eq)
next
  assume a: "check_leaks_linux stderr = Inr s \<and> key \<in> set summary_keys"
  then have "s = scanned (str_split CHR 0x0A stderr) empty_summary"
    by (simp add: check_leaks_linux_eq split: if_splits)
  with a show "s key =
          (if filter (sublist key) (str_split CHR 0x0A stderr) = [] then Some None
           else Some (Some (strip (between_colons
                  (last (filter (sublist key) (str_split CHR 0x0A stderr)))))))"
    by (simp add: scanned_def empty_summary_key field_of_def)
qed

theorem leak_field_between_colons_witness:
  "\<exists>s. check_leaks_linux ''definitely lost: 120 bytes'' = Inr s
     \<and> ''definitely'' \<in> set summary_keys \<and> ''possibly'' \<in> set summary_keys
     \<and> s ''definitely'' = Some (Some ''120 bytes'') \<and> s ''possibly'' = Some None"
proof -
  let ?e = "''definitely lost: 120 bytes''"
  have c1: "\<forall>c \<in> set ?e. \<not> digit7 c" by code_simp
  have c2: "\<forall>l \<in> set (str_split CHR 0x0A ?e). line_ok l" by code_simp
  have k1: "''definitely'' \<in> set summary_keys" and k2: "''possibly'' \<in> set summary_keys"
    by (simp_all add: summary_keys_def)
  have f1: "filter (sublist ''definitely'') (str_split CHR 0x0A ?e) = [?e]" by code_simp
  have f2: "filter (sublist ''possibly'') (str_split CHR 0x0A ?e) = []" by code_simp
  have f3: "strip (between_colons ?e) = ''120 bytes''" by code_simp
  from leak_field_between_colons [of ?e Map.empty "[]"] c1 c2
  obtain s where s: "check_leaks_linux ?e = Inr s" by blast
  from leak_field_between_colons [of ?e s "''definitely''"] s k1 f1 f3
  have d: "s ''definitely'' = Some (Some ''120 bytes'')" by simp
  from leak_field_between_colons [of ?e s "''possibly''"] s k2 f2
  have p: "s ''possibly'' = Some None" by simp
  from s k1 k2 d p show ?thesis by blast
qed

text \<open>
  Claim C8, at a line that contains a token and no colon (the form of a leak record
  rather than of the leak summary): the index into the split line raises, and the
  check returns no summary.
\<close>

theorem leak_line_without_colon_raises:
  "check_leaks_linux ''120 bytes in 3 blocks are definitely lost in loss record 1 of 2''
     = Inl IndexError"
proof -
  let ?e = "''120 bytes in 3 blocks are definitely lost in loss record 1 of 2''"
  have c1: "\<not> (\<exists>c \<in> set ?e. digit7 c)" by code_simp
  have c2: "\<not> (\<forall>l \<in> set (str_split CHR 0x0A ?e). line_ok l)" by code_simp
  show ?thesis unfolding check_leaks_linux_eq if_not_P [OF c1] by (rule if_not_P [OF c2])
qed

text \<open>
  Claim C10. In a summary that the leak check returns, the field of a token comes
  from the last line that contains the token, whatever the lines before it hold: it is
  the trimmed second piece of that line split at its colons.
\<close>

theorem last_matching_line_wins:
  assumes "check_leaks_linux stderr = Inr s" and "key \<in> set summary_keys"
    and "str_split CHR 0x0A stderr = earlier @ line # later"
    and "sublist key line" and "\<forall>l \<in> set later. \<not> sublist key l"
  shows "1 < length (str_split CHR '':'' line)
       \<and> s key = Some (Some (strip (str_split CHR '':'' line ! 1)))"
proof -
  from assms(1) have ok: "\<forall>l \<in> set (str_split CHR 0x0A stderr). line_ok l"
    and s: "s = scanned (str_split CHR 0x0A stderr) empty_summary"
    by (simp_all add: check_leaks_linux_eq split: if_splits)
  from ok assms(3) have "line_ok line" by simp
  with assms(2,4) have colon: "CHR '':'' \<in> set line" unfolding line_ok_def by blast
  from assms(5) have "filter (sublist key) later = []" by (simp add: filter_empty_conv)
  with assms(3,4) have f: "filter (sublist key) (str_split CHR 0x0A stderr)
      = filter (sublist key) earlier @ [line]"
    by simp
  have "s key = Some (Some (field_of line))"
    unfolding s scanned_def f using assms(2) by simp
  with between_colons_second [OF colon] show ?thesis by (simp add: field_of_def)
qed

theorem last_matching_line_wins_witness:
  "\<exists>s. check_leaks_linux ''definitely lost: 1 bytes\<newline>definitely lost: 2 bytes'' = Inr s
      \<and> ''definitely'' \<in> set summary_keys
      \<and> str_split CHR 0x0A ''definitely lost: 1 bytes\<newline>definitely lost: 2 bytes''
          = [''definitely lost: 1 bytes''] @ ''definitely lost: 2 bytes'' # []
      \<and> sublist ''definitely'' ''definitely lost: 1 bytes''
      \<and> sublist ''definitely'' ''definitely lost: 2 bytes''
      \<and> s ''definitely'' = Some (Some ''2 bytes'')"
proof -
  let ?e = "''definitely lost: 1 bytes\<newline>definitely lost: 2 bytes''"
  have c1: "\<not> (\<exists>c \<in> set ?e. digit7 c)" by code_simp
  have c2: "\<forall>l \<in> set (str_split CHR 0x0A ?e). line_ok l" by code_simp
  have s: "check_leaks_linux ?e = Inr (scanned (str_split CHR 0x0A ?e) empty_summary)"
    unfolding check_leaks_linux_eq if_not_P [OF c1] by (rule if_P [OF c2])
  have k: "''definitely'' \<in> set summary_keys" by (simp add: summary_keys_def)
  have sp: "str_split CHR 0x0A ?e
      = [''definitely lost: 1 bytes''] @ ''definitely lost: 2 bytes'' # []" by code_simp
  have m1: "sublist ''definitely'' ''definitely lost: 1 bytes''" by code_simp
  have m2: "sublist ''definitely'' ''definitely lost: 2 bytes''" by code_simp
  have l: "\<forall>l \<in> set ([] :: string list). \<not> sublist ''definitely'' l" by simp
  have v: "strip (str_split CHR '':'' ''definitely lost: 2 bytes'' ! 1) = ''2 bytes''" by code_simp
  from last_matching_line_wins [OF s k sp m2 l] v
  have "scanned (str_split CHR 0x0A ?e) empty_summary ''definitely'' = Some (Some ''2 bytes'')"
    by simp
  with s k sp m1 m2 show ?thesis by blast
qed

end
